theory Spec2Isabelle
  imports Main "HOL-Library.Word" "HOL-Library.Sublist" "HOL-Library.AList"
begin

text \<open>
  A model of the SSE stream parser: the two transform stages of the default pipeline
  (\<open>splitStream\<close>, \<open>splitEventPart\<close>) and the three ways of consuming the resulting
  stream (the async iterator, \<open>subscribe\<close>, \<open>collectAll\<close>), followed by the properties
  the specification states about them.
\<close>

section \<open>Strings of the host language\<close>

text \<open>
  A string of the source language is a finite sequence of 16-bit code units. All the
  string operations the parser uses (\<open>split\<close>, \<open>indexOf\<close>, \<open>includes\<close>, \<open>substring\<close>,
  \<open>trim\<close>) work on code units, so the model does too.
\<close>

type_synonym code_unit = "16 word"
type_synonym jsstring = "code_unit list"

text \<open>An ASCII literal as a string of code units (used to write examples).\<close>

definition js :: "string \<Rightarrow> jsstring" where
  "js s = map (\<lambda>c. of_nat (of_char c)) s"

lemma js_simps: "js [] = []" "js (c # cs) = of_nat (of_char c) # js cs"
  by (simp_all add: js_def)

text \<open>
  The characters \<open>trim\<close> removes: WhiteSpace (TAB, VT, FF, ZWNBSP and the Unicode
  space separators) and LineTerminator (LF, CR, LS, PS).
\<close>

definition is_white_space :: "code_unit \<Rightarrow> bool" where
  "is_white_space c \<longleftrightarrow>
     c = 0x0009 \<or> c = 0x000A \<or> c = 0x000B \<or> c = 0x000C \<or> c = 0x000D \<or>
     c = 0x0020 \<or> c = 0x00A0 \<or> c = 0x1680 \<or> (0x2000 \<le> c \<and> c \<le> 0x200A) \<or>
     c = 0x2028 \<or> c = 0x2029 \<or> c = 0x202F \<or> c = 0x205F \<or> c = 0x3000 \<or> c = 0xFEFF"

definition String_trim :: "jsstring \<Rightarrow> jsstring" where
  "String_trim s = rev (dropWhile is_white_space (rev (dropWhile is_white_space s)))"

text \<open>
  \<open>StringIndexOf s pat\<close> is the smallest position at which \<open>pat\<close> occurs in \<open>s\<close>,
  searching from position 0; \<open>None\<close> when it does not occur.
\<close>

fun StringIndexOf :: "jsstring \<Rightarrow> jsstring \<Rightarrow> nat option" where
  "StringIndexOf [] pat = (if pat = [] then Some 0 else None)"
| "StringIndexOf (c # cs) pat =
     (if prefix pat (c # cs) then Some 0 else map_option Suc (StringIndexOf cs pat))"

text \<open>\<open>s.indexOf(pat)\<close>: the position, or \<open>-1\<close>.\<close>

definition String_indexOf :: "jsstring \<Rightarrow> jsstring \<Rightarrow> int" where
  "String_indexOf s pat = (case StringIndexOf s pat of None \<Rightarrow> - 1 | Some i \<Rightarrow> int i)"

text \<open>\<open>s.includes(pat)\<close>.\<close>

definition String_includes :: "jsstring \<Rightarrow> jsstring \<Rightarrow> bool" where
  "String_includes s pat \<longleftrightarrow> StringIndexOf s pat \<noteq> None"

text \<open>
  \<open>s.substring(start, end)\<close>: both arguments are clamped to \<open>0 .. length s\<close> and swapped
  when \<open>start > end\<close>. \<open>s.substring(start)\<close> takes \<open>end = length s\<close>.
\<close>

definition String_substring :: "jsstring \<Rightarrow> int \<Rightarrow> int \<Rightarrow> jsstring" where
  "String_substring s start end =
     (let len = int (length s);
          finalStart = min (max start 0) len;
          finalEnd = min (max end 0) len;
          from = min finalStart finalEnd;
          to = max finalStart finalEnd
      in take (nat (to - from)) (drop (nat from) s))"

definition String_substring_from :: "jsstring \<Rightarrow> int \<Rightarrow> jsstring" where
  "String_substring_from s start = String_substring s start (int (length s))"

lemma StringIndexOf_bound:
  "StringIndexOf s pat = Some i \<Longrightarrow> i + length pat \<le> length s"
proof (induction s arbitrary: i)
  case Nil
  then show ?case by (simp split: if_splits)
next
  case (Cons c cs)
  show ?case
  proof (cases "prefix pat (c # cs)")
    case True
    then have "length pat \<le> length (c # cs)" by (rule prefix_length_le)
    with True Cons.prems show ?thesis by simp
  next
    case False
    with Cons.prems obtain j where "StringIndexOf cs pat = Some j" "i = Suc j"
      by auto
    with Cons.IH show ?thesis by fastforce
  qed
qed

text \<open>
  \<open>s.split(sep)\<close>: with an empty separator the string is cut into its code units;
  otherwise the occurrences of the separator are found from left to right, each search
  starting after the previous occurrence, and the pieces between them are returned
  (the piece after the last occurrence included, so the result is never empty).
\<close>

function String_split :: "jsstring \<Rightarrow> jsstring \<Rightarrow> jsstring list" where
  "String_split s sep =
     (if sep = [] then map (\<lambda>c. [c]) s
      else case StringIndexOf s sep of
             None \<Rightarrow> [s]
           | Some j \<Rightarrow> take j s # String_split (drop (j + length sep) s) sep)"
  by pat_completeness auto
termination
proof (relation "measure (\<lambda>(s, sep). length s)")
  show "wf (measure (\<lambda>(s, sep). length s))" by simp
next
  fix s sep :: jsstring and j :: nat
  assume "sep \<noteq> []" and "StringIndexOf s sep = Some j"
  then have "0 < length sep" and "j + length sep \<le> length s"
    using StringIndexOf_bound by auto
  then have "length s - (j + length sep) < length s" by linarith
  then show "((drop (j + length sep) s, sep), (s, sep)) \<in> measure (\<lambda>(s, sep). length s)"
    by simp
qed

declare String_split.simps [simp del]

section \<open>Wire-format constants\<close>

definition DEFAULT_STREAM_SEPARATOR :: jsstring where
  "DEFAULT_STREAM_SEPARATOR = [0x0A, 0x0A]"

definition DEFAULT_PART_SEPARATOR :: jsstring where
  "DEFAULT_PART_SEPARATOR = [0x0A]"

definition DEFAULT_KV_SEPARATOR :: jsstring where
  "DEFAULT_KV_SEPARATOR = [0x3A]"

text \<open>\<open>isValidString\<close>: the string is not blank. A string value is never \<open>null\<close> here.\<close>

definition isValidString :: "jsstring \<Rightarrow> bool" where
  "isValidString str \<longleftrightarrow> String_trim str \<noteq> []"

section \<open>splitStream: text chunks to event blocks\<close>

text \<open>
  The transform stream made by \<open>splitStream\<close> owns one variable, \<open>buffer\<close>. Each
  operation takes the state and returns the blocks it enqueues, in order, with the new
  state. \<open>parts.slice(0, -1)\<close> is \<open>butlast parts\<close> and \<open>parts[parts.length - 1]\<close> is
  \<open>last parts\<close>: the result of a split is never empty (\<open>String_split_nonempty\<close> below).
\<close>

record splitter =
  buffer :: jsstring

definition splitStream :: splitter where
  "splitStream = \<lparr>buffer = []\<rparr>"

definition splitStream_transform :: "splitter \<Rightarrow> jsstring \<Rightarrow> jsstring list \<times> splitter" where
  "splitStream_transform st streamChunk =
     (let buf = buffer st @ streamChunk;
          parts = String_split buf DEFAULT_STREAM_SEPARATOR
      in (filter isValidString (butlast parts), st\<lparr>buffer := last parts\<rparr>))"

definition splitStream_flush :: "splitter \<Rightarrow> jsstring list \<times> splitter" where
  "splitStream_flush st = (if isValidString (buffer st) then [buffer st] else [], st)"

text \<open>The blocks enqueued while the chunks arrive one by one, then at the flush.\<close>

fun splitStream_run :: "splitter \<Rightarrow> jsstring list \<Rightarrow> jsstring list" where
  "splitStream_run st [] = fst (splitStream_flush st)"
| "splitStream_run st (c # cs) =
     (let (out, st') = splitStream_transform st c in out @ splitStream_run st' cs)"

section \<open>Objects of the host language\<close>

text \<open>
  The object built by the parser starts as \<open>{}\<close> and only receives string keys with
  string values. It is modelled by its own properties in creation order.

  The assignment \<open>obj[key] = value\<close> of a string value: the key \<open>__proto__\<close> reaches the
  accessor inherited from \<open>Object.prototype\<close> (browsers and Node.js provide it), whose
  setter ignores a value that is neither an object nor \<open>null\<close>, so nothing is stored; an
  existing own property keeps its place and takes the new value; any other key becomes
  a new own property, created last.
\<close>

type_synonym js_object = "(jsstring \<times> jsstring) list"

definition proto_key :: jsstring where
  "proto_key = js ''__proto__''"

definition object_set :: "js_object \<Rightarrow> jsstring \<Rightarrow> jsstring \<Rightarrow> js_object" where
  "object_set obj key v = (if key = proto_key then obj else AList.update key v obj)"

text \<open>
  A key is an array index when it is the canonical decimal numeral of an integer from
  \<open>0\<close> to \<open>2^32 - 2\<close>. \<open>Object.keys\<close> lists the array-index keys first, in ascending
  numeric order, then the other keys in creation order.
\<close>

definition is_digit :: "code_unit \<Rightarrow> bool" where
  "is_digit c \<longleftrightarrow> 0x30 \<le> c \<and> c \<le> 0x39"

definition decimal_value :: "jsstring \<Rightarrow> nat" where
  "decimal_value s = foldl (\<lambda>n c. 10 * n + (unat c - 48)) 0 s"

definition is_array_index :: "jsstring \<Rightarrow> bool" where
  "is_array_index key \<longleftrightarrow>
     key \<noteq> [] \<and> list_all is_digit key \<and> (length key = 1 \<or> hd key \<noteq> 0x30) \<and>
     decimal_value key \<le> 4294967294"

definition Object_keys :: "js_object \<Rightarrow> jsstring list" where
  "Object_keys obj =
     (let ks = map fst obj
      in sort_key decimal_value (filter is_array_index ks) @
         filter (\<lambda>k. \<not> is_array_index k) ks)"

section \<open>splitEventPart: event block to event object\<close>

text \<open>
  The state of the loop over the lines of a block: the object under construction and
  the messages passed to \<open>console.warn\<close> so far.
\<close>

record parse_state =
  sseObject :: js_object
  warnings :: "jsstring list"

definition warning_message :: "jsstring \<Rightarrow> jsstring" where
  "warning_message line =
     line @ js '' , '' @ DEFAULT_KV_SEPARATOR @ [0x22] @
     js '' is not found in the sse line chunk!''"

text \<open>The body of the loop, for one line.\<close>

definition parse_line :: "parse_state \<Rightarrow> jsstring \<Rightarrow> parse_state" where
  "parse_line st line =
     (if \<not> String_includes line DEFAULT_KV_SEPARATOR
      then st\<lparr>warnings := warnings st @ [warning_message line]\<rparr>
      else
        let colonIndex = String_indexOf line DEFAULT_KV_SEPARATOR;
            key = String_substring line 0 colonIndex;
            value = String_trim (String_substring_from line (colonIndex + 1))
        in if isValidString key
           then st\<lparr>sseObject := object_set (sseObject st) key value\<rparr>
           else st)"

definition parse_lines :: "jsstring list \<Rightarrow> parse_state" where
  "parse_lines lines = foldl parse_line \<lparr>sseObject = [], warnings = []\<rparr> lines"

text \<open>
  The transform of \<open>splitEventPart\<close>: the objects it enqueues for one block (none or
  one) and the warnings it logs.
\<close>

definition splitEventPart_transform :: "jsstring \<Rightarrow> js_object list \<times> jsstring list" where
  "splitEventPart_transform partChunk =
     (let lines = String_split partChunk DEFAULT_PART_SEPARATOR;
          st = parse_lines lines
      in (if length (Object_keys (sseObject st)) = 0 then [] else [sseObject st],
          warnings st))"

section \<open>The default pipeline\<close>

text \<open>
  Text chunks piped through \<open>splitStream()\<close> and then \<open>splitEventPart()\<close>: every block
  the first stage enqueues is transformed by the second, in order; the source closes
  after the last chunk, which flushes the first stage.
\<close>

definition default_pipeline :: "jsstring list \<Rightarrow> js_object list" where
  "default_pipeline chunks =
     concat (map (\<lambda>part. fst (splitEventPart_transform part))
       (splitStream_run splitStream chunks))"

section \<open>The consumption adapter\<close>

text \<open>
  The stream returned by \<open>SseStreamParser\<close> is read through a reader. One call of
  \<open>reader.read()\<close> settles with a value (\<open>done\<close> false), with \<open>done\<close> true, or is rejected
  with an error. A stream is given by the results of its successive reads; a read beyond
  the end of the list never settles.

  The adapter is generic in the type of the values (\<open>Output\<close>); the conversion of a value
  to a boolean, which the source applies in \<open>!value\<close> and \<open>value && subscribing\<close>, is the
  parameter \<open>truthy\<close>.
\<close>

type_synonym js_error = string

datatype 'a read_result = Chunk 'a | Done | Rejected js_error

text \<open>\<open>getReader()\<close> throws when the stream is already locked to a reader.\<close>

definition reader_locked :: js_error where
  "reader_locked = ''TypeError: ReadableStream is locked''"

subsection \<open>The async iterator\<close>




subsection \<open>subscribe\<close>

text \<open>
  What a subscription does, in order: it calls \<open>reader.read()\<close>, the read settles, the
  cancellation function returned by \<open>subscribe\<close> is called, the value callback or the
  completion callback is invoked, \<open>console.error\<close> logs an error, the lock is released, an
  error leaves the asynchronous function (nobody awaits it).
\<close>

datatype 'a event =
  Read | Settled "'a read_result" | Unsubscribe | Callback 'a | OnComplete
  | ConsoleError js_error | ReleaseLock | Uncaught js_error

text \<open>
  The two callbacks are the subscriber's code. A call of one of them leaves the
  subscriber in a new state, may have called the cancellation function, and returns or
  throws. \<open>onComplete\<close> is optional.
\<close>

record 'w call_result =
  new_state :: 'w
  unsubscribed :: bool
  thrown :: "js_error option"

record ('a, 'w) subscriber =
  callback :: "'a \<Rightarrow> 'w \<Rightarrow> 'w call_result"
  onComplete :: "('w \<Rightarrow> 'w call_result) option"

definition unsubscribe_events :: "bool \<Rightarrow> 'a event list" where
  "unsubscribe_events called = (if called then [Unsubscribe] else [])"

text \<open>
  The \<open>catch\<close> block: the error is logged and \<open>onComplete?.()\<close> is called; an error thrown
  by that call is not caught by anything.
\<close>

definition catch_block :: "('a, 'w) subscriber \<Rightarrow> js_error \<Rightarrow> 'w \<Rightarrow> 'a event list \<times> 'w" where
  "catch_block s error w =
     (case onComplete s of
        None \<Rightarrow> ([ConsoleError error], w)
      | Some f \<Rightarrow>
          let c = f w
          in (ConsoleError error # OnComplete # unsubscribe_events (unsubscribed c) @
                (case thrown c of None \<Rightarrow> [] | Some e \<Rightarrow> [Uncaught e]),
              new_state c))"

definition emit :: "'a event list \<Rightarrow> 'a event list \<times> 'w \<Rightarrow> 'a event list \<times> 'w" where
  "emit es r = (es @ fst r, snd r)"

text \<open>
  The \<open>while (subscribing)\<close> loop with its \<open>finally\<close> and \<open>catch\<close> blocks. Each element of
  the last argument is one read: whether the cancellation function is called while the
  read is pending, and how the read settles. With no element left the read never
  settles. The result is what happens, in order, and the subscriber's final state.
\<close>

fun pump :: "('a \<Rightarrow> bool) \<Rightarrow> ('a, 'w) subscriber \<Rightarrow> bool \<Rightarrow> 'w \<Rightarrow>
    (bool \<times> 'a read_result) list \<Rightarrow> 'a event list \<times> 'w" where
  "pump truthy s subscribing w [] =
     (if subscribing then ([Read], w) else ([ReleaseLock], w))"
| "pump truthy s subscribing w ((cancelled, r) # rest) =
     (if \<not> subscribing then ([ReleaseLock], w)
      else
        emit (Read # unsubscribe_events cancelled @ [Settled r])
          (case r of
             Rejected e \<Rightarrow> emit [ReleaseLock] (catch_block s e w)
           | Done \<Rightarrow>
               (case onComplete s of
                  None \<Rightarrow> ([ReleaseLock], w)
                | Some f \<Rightarrow>
                    let c = f w
                    in emit (OnComplete # unsubscribe_events (unsubscribed c) @ [ReleaseLock])
                         (case thrown c of
                            None \<Rightarrow> ([], new_state c)
                          | Some e \<Rightarrow> catch_block s e (new_state c)))
           | Chunk v \<Rightarrow>
               if truthy v \<and> \<not> cancelled
               then
                 let c = callback s v w
                 in emit (Callback v # unsubscribe_events (unsubscribed c))
                      (case thrown c of
                         None \<Rightarrow> pump truthy s (\<not> unsubscribed c) (new_state c) rest
                       | Some e \<Rightarrow> emit [ReleaseLock] (catch_block s e (new_state c)))
               else pump truthy s (\<not> cancelled) w rest))"

declare pump.simps [simp del]

text \<open>
  \<open>subscribe\<close> sets \<open>subscribing\<close> and starts the asynchronous function, which runs up to
  its first \<open>await\<close> before \<open>subscribe\<close> returns. When \<open>getReader()\<close> throws, the inner \<open>try\<close>
  is not entered and only the \<open>catch\<close> block runs.
\<close>

definition subscribe :: "('a \<Rightarrow> bool) \<Rightarrow> bool \<Rightarrow> ('a, 'w) subscriber \<Rightarrow> 'w \<Rightarrow>
    (bool \<times> 'a read_result) list \<Rightarrow> 'a event list \<times> 'w" where
  "subscribe truthy locked s w ticks =
     (if locked then catch_block s reader_locked w else pump truthy s True w ticks)"

subsection \<open>collectAll\<close>




subsection \<open>Values of the host language\<close>

text \<open>
  Values a custom transform stage can enqueue, with the conversion to a boolean the
  language applies to them (numbers are limited to the integers here). The objects of
  the default pipeline are all truthy.
\<close>

datatype js_value =
  JUndefined | JNull | JBoolean bool | JNumber int | JString jsstring | JObject js_object

fun ToBoolean :: "js_value \<Rightarrow> bool" where
  "ToBoolean JUndefined = False"
| "ToBoolean JNull = False"
| "ToBoolean (JBoolean b) = b"
| "ToBoolean (JNumber n) = (n \<noteq> 0)"
| "ToBoolean (JString s) = (s \<noteq> [])"
| "ToBoolean (JObject obj) = True"

text \<open>A subscriber that keeps the values it receives, used in the examples.\<close>

definition recorder :: "(js_value, js_value list) subscriber" where
  "recorder =
     \<lparr>callback = (\<lambda>v w. \<lparr>new_state = w @ [v], unsubscribed = False, thrown = None\<rparr>),
      onComplete = Some (\<lambda>w. \<lparr>new_state = w, unsubscribed = False, thrown = None\<rparr>)\<rparr>"

section \<open>Notions used to state the properties\<close>

text \<open>
  The fields of the lines of a block, in order: for each line that holds a \<open>:\<close>, the text
  before the first \<open>:\<close> and the trimmed text after it. \<open>stored_fields\<close> keeps those the
  loop stores: the key is not blank and is not \<open>__proto__\<close>.
\<close>

definition line_fields :: "jsstring list \<Rightarrow> (jsstring \<times> jsstring) list" where
  "line_fields lines =
     map (\<lambda>l. (takeWhile (\<lambda>c. c \<noteq> 0x3A) l, String_trim (tl (dropWhile (\<lambda>c. c \<noteq> 0x3A) l))))
       (filter (\<lambda>l. 0x3A \<in> set l) lines)"

definition stored_fields :: "jsstring list \<Rightarrow> (jsstring \<times> jsstring) list" where
  "stored_fields lines =
     filter (\<lambda>(k, v). isValidString k \<and> k \<noteq> proto_key) (line_fields lines)"

text \<open>
  A stretch of a subscription is quiet when it starts no read and invokes no value
  callback. A run respects cancellation when everything after a call of the cancellation
  function is quiet.
\<close>

definition quiet :: "'a event list \<Rightarrow> bool" where
  "quiet es \<longleftrightarrow> Read \<notin> set es \<and> (\<forall>v. Callback v \<notin> set es)"

fun respects_unsubscribe :: "'a event list \<Rightarrow> bool" where
  "respects_unsubscribe [] = True"
| "respects_unsubscribe (e # es) = ((e = Unsubscribe \<longrightarrow> quiet es) \<and> respects_unsubscribe es)"

section \<open>Properties of the string operations\<close>

lemma String_split_nonempty: "sep \<noteq> [] \<Longrightarrow> String_split s sep \<noteq> []"
  by (subst String_split.simps) (simp split: option.splits)

lemma StringIndexOf_append:
  "StringIndexOf xs pat = Some i \<Longrightarrow> StringIndexOf (xs @ ys) pat = Some i"
proof (induction xs arbitrary: i)
  case Nil
  then show ?case by (cases ys) (simp_all split: if_splits)
next
  case (Cons c cs)
  show ?case
  proof (cases "prefix pat (c # cs)")
    case True
    then have "prefix pat ((c # cs) @ ys)" by (rule prefix_prefix)
    with True Cons.prems show ?thesis by simp
  next
    case False
    with Cons.prems obtain j where j: "StringIndexOf cs pat = Some j" "i = Suc j"
      by auto
    then have len: "length pat \<le> length (c # cs)"
      using StringIndexOf_bound [of cs pat j] by simp
    have "\<not> prefix pat ((c # cs) @ ys)"
    proof
      assume "prefix pat ((c # cs) @ ys)"
      moreover have "prefix (c # cs) ((c # cs) @ ys)" by simp
      ultimately have "prefix pat (c # cs)" using len
        by (rule prefix_length_prefix)
      with False show False by simp
    qed
    with j Cons.IH [of j] show ?thesis by simp
  qed
qed

text \<open>
  Splitting a text that grows at its end: the pieces before the last one stay, and only
  the last piece has to be split again with what was appended.
\<close>

lemma String_split_append:
  "sep \<noteq> [] \<Longrightarrow>
   String_split (xs @ ys) sep =
     butlast (String_split xs sep) @ String_split (last (String_split xs sep) @ ys) sep"
proof (induction xs sep rule: String_split.induct)
  case (1 s sep)
  show ?case
  proof (cases "StringIndexOf s sep")
    case None
    with 1 show ?thesis by (simp add: String_split.simps [of s])
  next
    case (Some j)
    then have b: "j + length sep \<le> length s" by (rule StringIndexOf_bound)
    have ix: "StringIndexOf (s @ ys) sep = Some j" using Some by (rule StringIndexOf_append)
    let ?r = "drop (j + length sep) s"
    have ne: "String_split ?r sep \<noteq> []" using 1(2) by (rule String_split_nonempty)
    have "String_split (s @ ys) sep = take j s # String_split (?r @ ys) sep"
      using 1(2) ix b by (subst String_split.simps) simp
    also have "String_split (?r @ ys) sep =
        butlast (String_split ?r sep) @ String_split (last (String_split ?r sep) @ ys) sep"
      using 1 Some by simp
    finally show ?thesis
      using 1(2) Some ne by (simp add: String_split.simps [of s])
  qed
qed

lemma String_split_last_free:
  "sep \<noteq> [] \<Longrightarrow> StringIndexOf (last (String_split s sep)) sep = None"
proof (induction s sep rule: String_split.induct)
  case (1 s sep)
  show ?case
  proof (cases "StringIndexOf s sep")
    case None
    with 1(2) show ?thesis by (simp add: String_split.simps [of s])
  next
    case (Some j)
    with 1 String_split_nonempty [of sep "drop (j + length sep) s"] show ?thesis
      by (simp add: String_split.simps [of s])
  qed
qed

lemma separator_nonempty [simp]: "DEFAULT_STREAM_SEPARATOR \<noteq> []"
  by (simp add: DEFAULT_STREAM_SEPARATOR_def)

lemma splitStream_run_split:
  "StringIndexOf (buffer st) DEFAULT_STREAM_SEPARATOR = None \<Longrightarrow>
   splitStream_run st chunks =
     filter isValidString (String_split (buffer st @ concat chunks) DEFAULT_STREAM_SEPARATOR)"
proof (induction chunks arbitrary: st)
  case Nil
  then show ?case
    by (simp add: splitStream_flush_def String_split.simps [of "buffer st"])
next
  case (Cons c cs)
  let ?parts = "String_split (buffer st @ c) DEFAULT_STREAM_SEPARATOR"
  let ?st = "st\<lparr>buffer := last ?parts\<rparr>"
  have free: "StringIndexOf (buffer ?st) DEFAULT_STREAM_SEPARATOR = None"
    by (simp add: String_split_last_free)
  have "splitStream_run st (c # cs) = filter isValidString (butlast ?parts) @ splitStream_run ?st cs"
    by (simp add: splitStream_transform_def Let_def)
  also have "splitStream_run ?st cs =
      filter isValidString (String_split (last ?parts @ concat cs) DEFAULT_STREAM_SEPARATOR)"
    using Cons.IH [OF free] by simp
  also have "filter isValidString (butlast ?parts) @ \<dots> =
      filter isValidString (String_split ((buffer st @ c) @ concat cs) DEFAULT_STREAM_SEPARATOR)"
    by (subst String_split_append) simp_all
  finally show ?case by simp
qed

section \<open>Properties of trimming, searching and the loop body\<close>

lemma dropWhile_nonwhite:
  "(\<exists>x \<in> set (dropWhile P xs). \<not> P x) \<longleftrightarrow> (\<exists>x \<in> set xs. \<not> P x)"
  by (induction xs) auto

lemma isValidString_iff: "isValidString s \<longleftrightarrow> (\<exists>c \<in> set s. \<not> is_white_space c)"
proof -
  have "isValidString s \<longleftrightarrow> dropWhile is_white_space (rev (dropWhile is_white_space s)) \<noteq> []"
    by (simp add: isValidString_def String_trim_def)
  also have "\<dots> \<longleftrightarrow> (\<exists>x \<in> set (dropWhile is_white_space s). \<not> is_white_space x)"
    by (simp add: dropWhile_eq_Nil_conv)
  also have "\<dots> \<longleftrightarrow> (\<exists>c \<in> set s. \<not> is_white_space c)"
    by (rule dropWhile_nonwhite)
  finally show ?thesis .
qed

lemma String_trim_decomp:
  "\<exists>l r. s = l @ String_trim s @ r \<and> list_all is_white_space l \<and> list_all is_white_space r"
proof -
  let ?l = "takeWhile is_white_space s"
  let ?m = "dropWhile is_white_space s"
  let ?r = "rev (takeWhile is_white_space (rev ?m))"
  have "rev ?m = takeWhile is_white_space (rev ?m) @ dropWhile is_white_space (rev ?m)"
    by simp
  then have "?m = String_trim s @ ?r"
    unfolding String_trim_def by (metis rev_append rev_rev_ident)
  then have "s = ?l @ String_trim s @ ?r"
    by (metis takeWhile_dropWhile_id)
  moreover have "list_all is_white_space ?l"
    by (simp add: list_all_iff) (metis set_takeWhileD)
  moreover have "list_all is_white_space ?r"
    by (simp add: list_all_iff) (metis set_takeWhileD)
  ultimately show ?thesis by blast
qed

lemma StringIndexOf_single:
  "StringIndexOf s [c] = (if c \<in> set s then Some (length (takeWhile (\<lambda>x. x \<noteq> c) s)) else None)"
  by (induction s) auto

lemma String_includes_single: "String_includes s [c] \<longleftrightarrow> c \<in> set s"
  by (simp add: String_includes_def StringIndexOf_single)

lemma String_substring_take:
  "n \<le> length s \<Longrightarrow> String_substring s 0 (int n) = take n s"
  by (simp add: String_substring_def Let_def)

lemma String_substring_from_drop:
  "n \<le> length s \<Longrightarrow> String_substring_from s (int n) = drop n s"
  by (simp add: String_substring_from_def String_substring_def Let_def)

lemma substring_prefix:
  "String_substring s 0 (int (length (takeWhile P s))) = takeWhile P s"
proof -
  have "String_substring s 0 (int (length (takeWhile P s))) = take (length (takeWhile P s)) s"
    by (rule String_substring_take) (rule length_takeWhile_le)
  also have "\<dots> = takeWhile P s" by (rule takeWhile_eq_take [symmetric])
  finally show ?thesis .
qed

lemma substring_suffix:
  assumes "c \<in> set s"
  shows "String_substring_from s (int (length (takeWhile (\<lambda>x. x \<noteq> c) s)) + 1) =
     tl (dropWhile (\<lambda>x. x \<noteq> c) s)"
proof -
  let ?n = "length (takeWhile (\<lambda>x. x \<noteq> c) s)"
  from assms have "?n < length s"
    by (induction s) auto
  then have "String_substring_from s (int (Suc ?n)) = drop (Suc ?n) s"
    by (intro String_substring_from_drop) simp
  also have "\<dots> = tl (drop ?n s)" by (simp add: drop_Suc tl_drop)
  also have "drop ?n s = dropWhile (\<lambda>x. x \<noteq> c) s" by (rule dropWhile_eq_drop [symmetric])
  finally show ?thesis by (simp add: add.commute)
qed

lemma parse_line_fields:
  "parse_line st line =
     (if 0x3A \<notin> set line then st\<lparr>warnings := warnings st @ [warning_message line]\<rparr>
      else let key = takeWhile (\<lambda>c. c \<noteq> 0x3A) line;
               val = String_trim (tl (dropWhile (\<lambda>c. c \<noteq> 0x3A) line))
           in if isValidString key then st\<lparr>sseObject := object_set (sseObject st) key val\<rparr>
              else st)"
  by (simp add: parse_line_def DEFAULT_KV_SEPARATOR_def String_includes_single
      String_indexOf_def StringIndexOf_single substring_prefix substring_suffix Let_def)

text \<open>Rules for evaluating the parser on a given text.\<close>

lemmas evaluate_line =
  js_simps parse_lines_def parse_line_fields Let_def isValidString_def String_trim_def
  is_white_space_def object_set_def proto_key_def

lemmas evaluate_keys =
  js_simps Object_keys_def is_array_index_def is_digit_def decimal_value_def

lemmas evaluate_split =
  js_simps String_split.simps DEFAULT_STREAM_SEPARATOR_def DEFAULT_PART_SEPARATOR_def

lemmas evaluate_valid = js_simps isValidString_def String_trim_def is_white_space_def

section \<open>Properties of the subscription loop\<close>

text \<open>The loop, case by case.\<close>

lemma fst_emit [simp]: "fst (emit es r) = es @ fst r"
  and snd_emit [simp]: "snd (emit es r) = snd r"
  by (simp_all add: emit_def)

lemma pump_no_ticks: "pump truthy s True w [] = ([Read], w)"
  by (simp add: pump.simps)

lemma pump_unsubscribed: "pump truthy s False w ticks = ([ReleaseLock], w)"
  by (cases ticks) (auto simp: pump.simps)

lemma pump_Rejected:
  "pump truthy s True w ((cancelled, Rejected e) # rest) =
     emit (Read # unsubscribe_events cancelled @ [Settled (Rejected e), ReleaseLock])
       (catch_block s e w)"
  by (simp add: pump.simps emit_def)

lemma pump_Done_no_callback:
  "onComplete s = None \<Longrightarrow>
   pump truthy s True w ((cancelled, Done) # rest) =
     (Read # unsubscribe_events cancelled @ [Settled Done, ReleaseLock], w)"
  by (simp add: pump.simps emit_def)

lemma pump_Done:
  "onComplete s = Some f \<Longrightarrow> thrown (f w) = None \<Longrightarrow>
   pump truthy s True w ((cancelled, Done) # rest) =
     (Read # unsubscribe_events cancelled @ Settled Done # OnComplete #
        unsubscribe_events (unsubscribed (f w)) @ [ReleaseLock], new_state (f w))"
  by (simp add: pump.simps emit_def Let_def)

lemma pump_Done_throws:
  "onComplete s = Some f \<Longrightarrow> thrown (f w) = Some e \<Longrightarrow>
   pump truthy s True w ((cancelled, Done) # rest) =
     emit (Read # unsubscribe_events cancelled @ Settled Done # OnComplete #
        unsubscribe_events (unsubscribed (f w)) @ [ReleaseLock])
       (catch_block s e (new_state (f w)))"
  by (simp add: pump.simps emit_def Let_def)

lemma pump_deliver:
  "truthy v \<Longrightarrow> thrown (callback s v w) = None \<Longrightarrow>
   pump truthy s True w ((False, Chunk v) # rest) =
     emit (Read # Settled (Chunk v) # Callback v #
        unsubscribe_events (unsubscribed (callback s v w)))
       (pump truthy s (\<not> unsubscribed (callback s v w)) (new_state (callback s v w)) rest)"
  by (simp add: pump.simps emit_def Let_def unsubscribe_events_def)

lemma pump_deliver_throws:
  "truthy v \<Longrightarrow> thrown (callback s v w) = Some e \<Longrightarrow>
   pump truthy s True w ((False, Chunk v) # rest) =
     emit (Read # Settled (Chunk v) # Callback v #
        unsubscribe_events (unsubscribed (callback s v w)) @ [ReleaseLock])
       (catch_block s e (new_state (callback s v w)))"
  by (simp add: pump.simps emit_def Let_def unsubscribe_events_def)

lemma pump_skip:
  "\<not> (truthy v \<and> \<not> cancelled) \<Longrightarrow>
   pump truthy s True w ((cancelled, Chunk v) # rest) =
     emit (Read # unsubscribe_events cancelled @ [Settled (Chunk v)])
       (pump truthy s (\<not> cancelled) w rest)"
  by (cases "truthy v"; cases cancelled) (simp_all add: pump.simps emit_def)

lemma tick_cases [case_names Rejected Done_no_callback Done Done_throws deliver deliver_throws skip]:
  fixes r :: "'a read_result" and s :: "('a, 'w) subscriber"
  obtains e where "r = Rejected e"
  | "r = Done" "onComplete s = None"
  | f where "r = Done" "onComplete s = Some f" "thrown (f w) = None"
  | f e where "r = Done" "onComplete s = Some f" "thrown (f w) = Some e"
  | v where "r = Chunk v" "truthy v" "\<not> cancelled" "thrown (callback s v w) = None"
  | v e where "r = Chunk v" "truthy v" "\<not> cancelled" "thrown (callback s v w) = Some e"
  | v where "r = Chunk v" "\<not> (truthy v \<and> \<not> cancelled)"
proof (cases r)
  case (Chunk v)
  then show ?thesis using that(5,6,7) by (cases "thrown (callback s v w)") blast+
next
  case Done
  show ?thesis
  proof (cases "onComplete s")
    case None
    with Done that(2) show ?thesis by blast
  next
    case (Some f)
    with Done that(3,4) show ?thesis by (cases "thrown (f w)") blast+
  qed
next
  case (Rejected e)
  with that(1) show ?thesis by blast
qed

lemma catch_block_events:
  "set (fst (catch_block s e w)) \<subseteq> {ConsoleError e, OnComplete, Unsubscribe} \<union> range Uncaught"
  by (auto simp: catch_block_def Let_def unsubscribe_events_def split: option.splits if_splits)

lemma quiet_simps [simp]:
  "quiet []"
  "quiet (e # es) \<longleftrightarrow> e \<noteq> Read \<and> (\<forall>v. e \<noteq> Callback v) \<and> quiet es"
  "quiet (es @ es') \<longleftrightarrow> quiet es \<and> quiet es'"
  by (auto simp: quiet_def)

lemma quiet_unsubscribe_events [simp]: "quiet (unsubscribe_events b)"
  by (simp add: unsubscribe_events_def)

lemma quiet_catch_block [simp]: "quiet (fst (catch_block s e w))"
  using catch_block_events [of s e w] by (auto simp: quiet_def)

lemma respects_unsubscribe_append:
  "respects_unsubscribe (es @ es') \<longleftrightarrow>
     respects_unsubscribe es \<and> respects_unsubscribe es' \<and> (Unsubscribe \<in> set es \<longrightarrow> quiet es')"
  by (induction es) auto

lemma respects_quiet: "quiet es \<Longrightarrow> respects_unsubscribe es"
  by (induction es) auto

lemma respects_unsubscribe_events [simp]: "respects_unsubscribe (unsubscribe_events b)"
  by (simp add: unsubscribe_events_def)

lemma Unsubscribe_in_events [simp]: "Unsubscribe \<in> set (unsubscribe_events b) \<longleftrightarrow> b"
  by (simp add: unsubscribe_events_def)

lemma respects_unsubscribe_split:
  "respects_unsubscribe tr \<Longrightarrow> tr = pre @ Unsubscribe # post \<Longrightarrow> quiet post"
  by (induction pre arbitrary: tr) auto

lemma respects_catch_block [simp]: "respects_unsubscribe (fst (catch_block s e w))"
  by (rule respects_quiet) simp

lemma split_first:
  assumes "xs @ ys = pre @ x # post" and "x \<notin> set xs"
  shows "\<exists>pre'. pre = xs @ pre' \<and> ys = pre' @ x # post"
  using assms
proof (induction xs arbitrary: pre)
  case Nil
  then show ?case by simp
next
  case (Cons a xs)
  then show ?case by (cases pre) auto
qed

lemma not_split: "x \<notin> set tr \<Longrightarrow> tr = pre @ x # post \<Longrightarrow> P"
  by auto

lemma Settled_notin_unsubscribe_events [simp]: "Settled r \<notin> set (unsubscribe_events b)"
  by (simp add: unsubscribe_events_def)

lemma OnComplete_notin_unsubscribe_events [simp]: "OnComplete \<notin> set (unsubscribe_events b)"
  by (simp add: unsubscribe_events_def)

lemma Settled_notin_catch_block [simp]: "Settled r \<notin> set (fst (catch_block s e w))"
  using catch_block_events [of s e w] by auto

lemma Callback_notin_unsubscribe_events [simp]: "Callback x \<notin> set (unsubscribe_events b)"
  by (simp add: unsubscribe_events_def)

lemma Callback_notin_catch_block [simp]: "Callback x \<notin> set (fst (catch_block s e w))"
  using catch_block_events [of s e w] by auto

text \<open>Rules for evaluating a subscription on given reads.\<close>

lemmas evaluate_pump =
  subscribe_def pump.simps emit_def catch_block_def unsubscribe_events_def Let_def recorder_def

section \<open>Chunk-boundary independence\<close>

text \<open>
  C1. However a text is cut into chunks, feeding the chunks one by one to the splitter
  and then to the field parser, with the final flush, gives the same sequence of objects
  as feeding the whole text as a single chunk.
\<close>

theorem chunk_boundary_independence:
  "default_pipeline chunks = default_pipeline [concat chunks]"
proof -
  have "StringIndexOf (buffer splitStream) DEFAULT_STREAM_SEPARATOR = None"
    by (simp add: splitStream_def DEFAULT_STREAM_SEPARATOR_def)
  then have "splitStream_run splitStream chunks = splitStream_run splitStream [concat chunks]"
    by (simp only: splitStream_run_split) simp
  then show ?thesis by (simp only: default_pipeline_def)
qed

text \<open>
  The scenario of the specification: two events, delivered as two chunks cut in the
  middle of the first block.
\<close>

lemma end_to_end_scenario:
  "default_pipeline
     [js ''event: message\<newline>da'', js ''ta: hi\<newline>\<newline>event: update\<newline>data: ok\<newline>\<newline>''] =
     [[(js ''event'', js ''message''), (js ''data'', js ''hi'')],
      [(js ''event'', js ''update''), (js ''data'', js ''ok'')]]"
proof -
  let ?chunks = "[js ''event: message\<newline>da'',
      js ''ta: hi\<newline>\<newline>event: update\<newline>data: ok\<newline>\<newline>'']"
  let ?b1 = "js ''event: message\<newline>data: hi''"
  let ?b2 = "js ''event: update\<newline>data: ok''"
  have whole: "buffer splitStream @ concat ?chunks =
      js ''event: message\<newline>data: hi\<newline>\<newline>event: update\<newline>data: ok\<newline>\<newline>''"
    by (simp add: splitStream_def js_def)
  have "StringIndexOf (buffer splitStream) DEFAULT_STREAM_SEPARATOR = None"
    by (simp add: splitStream_def DEFAULT_STREAM_SEPARATOR_def)
  then have "splitStream_run splitStream ?chunks =
      filter isValidString (String_split (buffer splitStream @ concat ?chunks) DEFAULT_STREAM_SEPARATOR)"
    by (rule splitStream_run_split)
  also have "String_split (buffer splitStream @ concat ?chunks) DEFAULT_STREAM_SEPARATOR =
      [?b1, ?b2, js []]"
    unfolding whole by (simp add: evaluate_split)
  also have "filter isValidString [?b1, ?b2, js []] = [?b1, ?b2]"
    by (simp add: evaluate_valid)
  finally have run: "splitStream_run splitStream ?chunks = [?b1, ?b2]" .
  have s1: "String_split ?b1 DEFAULT_PART_SEPARATOR = [js ''event: message'', js ''data: hi'']"
    by (simp add: evaluate_split)
  have p1: "sseObject (parse_lines [js ''event: message'', js ''data: hi'']) =
      [(js ''event'', js ''message''), (js ''data'', js ''hi'')]"
    by (simp add: evaluate_line)
  have s2: "String_split ?b2 DEFAULT_PART_SEPARATOR = [js ''event: update'', js ''data: ok'']"
    by (simp add: evaluate_split)
  have p2: "sseObject (parse_lines [js ''event: update'', js ''data: ok'']) =
      [(js ''event'', js ''update''), (js ''data'', js ''ok'')]"
    by (simp add: evaluate_line)
  have k1: "Object_keys [(js ''event'', js ''message''), (js ''data'', js ''hi'')] =
      [js ''event'', js ''data'']"
    by (simp add: evaluate_keys)
  have k2: "Object_keys [(js ''event'', js ''update''), (js ''data'', js ''ok'')] =
      [js ''event'', js ''data'']"
    by (simp add: evaluate_keys)
  have e1: "fst (splitEventPart_transform ?b1) =
      [[(js ''event'', js ''message''), (js ''data'', js ''hi'')]]"
    unfolding splitEventPart_transform_def Let_def s1 p1 k1 by simp
  have e2: "fst (splitEventPart_transform ?b2) =
      [[(js ''event'', js ''update''), (js ''data'', js ''ok'')]]"
    unfolding splitEventPart_transform_def Let_def s2 p2 k2 by simp
  show ?thesis unfolding default_pipeline_def run by (simp add: e1 e2)
qed

section \<open>Cancelling a subscription\<close>

lemma pump_respects_unsubscribe:
  "respects_unsubscribe (fst (pump truthy s subscribing w ticks))"
proof (induction ticks arbitrary: subscribing w)
  case Nil
  then show ?case by (cases subscribing) (simp_all add: pump_no_ticks pump_unsubscribed)
next
  case (Cons t ticks)
  obtain cancelled r where t: "t = (cancelled, r)" by (cases t)
  show ?case
  proof (cases subscribing)
    case False
    then show ?thesis by (simp add: pump_unsubscribed)
  next
    case True
    show ?thesis
    proof (cases rule: tick_cases [where r = r and s = s and w = w and truthy = truthy and cancelled = cancelled])
      case (Rejected e)
      then show ?thesis using True
        by (simp add: t pump_Rejected respects_unsubscribe_append)
    next
      case Done_no_callback
      then show ?thesis using True
        by (simp add: t pump_Done_no_callback respects_unsubscribe_append)
    next
      case (Done f)
      then show ?thesis using True
        by (simp add: t pump_Done respects_unsubscribe_append)
    next
      case (Done_throws f e)
      then show ?thesis using True
        by (simp add: t pump_Done_throws respects_unsubscribe_append)
    next
      case (deliver v)
      let ?c = "callback s v w"
      have "respects_unsubscribe (fst (pump truthy s (\<not> unsubscribed ?c) (new_state ?c) ticks))"
        by (rule Cons.IH)
      moreover have "unsubscribed ?c \<Longrightarrow>
          quiet (fst (pump truthy s (\<not> unsubscribed ?c) (new_state ?c) ticks))"
        by (simp add: pump_unsubscribed)
      ultimately show ?thesis using True deliver
        by (simp add: t pump_deliver respects_unsubscribe_append)
    next
      case (deliver_throws v e)
      then show ?thesis using True
        by (simp add: t pump_deliver_throws respects_unsubscribe_append)
    next
      case (skip v)
      have "respects_unsubscribe (fst (pump truthy s (\<not> cancelled) w ticks))"
        by (rule Cons.IH)
      moreover have "cancelled \<Longrightarrow> quiet (fst (pump truthy s (\<not> cancelled) w ticks))"
        by (simp add: pump_unsubscribed)
      ultimately show ?thesis using True skip
        by (simp add: t pump_skip respects_unsubscribe_append)
    qed
  qed
qed

text \<open>
  C2. In every run of a subscription, whatever the reads give and whatever the callbacks
  do, nothing that happens after a call of the cancellation function is a call of
  \<open>reader.read()\<close> or an invocation of the value callback: the value of the read that was
  pending is dropped and the loop ends.
\<close>

theorem unsubscribe_stops_delivery:
  assumes "fst (subscribe truthy locked s w ticks) = pre @ Unsubscribe # post"
    and "ev \<in> set post"
  shows "ev \<noteq> Read \<and> ev \<noteq> Callback v"
proof -
  have "respects_unsubscribe (fst (subscribe truthy locked s w ticks))"
    by (simp add: subscribe_def pump_respects_unsubscribe)
  then have "quiet post" using assms(1) by (rule respects_unsubscribe_split)
  with assms(2) show ?thesis by (auto simp: quiet_def)
qed

text \<open>
  The cancellation function is called while the second read is pending: its value
  \<open>2\<close> is not delivered and the third read is never started.
\<close>

theorem unsubscribe_stops_delivery_witness:
  "fst (subscribe ToBoolean False recorder []
      [(False, Chunk (JNumber 1)), (True, Chunk (JNumber 2)), (False, Chunk (JNumber 3))]) =
     [Read, Settled (Chunk (JNumber 1)), Callback (JNumber 1), Read] @
       Unsubscribe # [Settled (Chunk (JNumber 2)), ReleaseLock] \<and>
   ReleaseLock \<in> set [Settled (Chunk (JNumber 2)), ReleaseLock] \<and>
   Settled (Chunk (JNumber 2)) \<noteq> Callback (JNumber 2) \<and>
   ReleaseLock \<noteq> Read \<and> ReleaseLock \<noteq> Callback (JNumber 2)"
proof -
  let ?ticks = "[(False, Chunk (JNumber 1)), (True, Chunk (JNumber 2)), (False, Chunk (JNumber 3))]"
  have run: "fst (subscribe ToBoolean False recorder [] ?ticks) =
     [Read, Settled (Chunk (JNumber 1)), Callback (JNumber 1), Read] @
       Unsubscribe # [Settled (Chunk (JNumber 2)), ReleaseLock]"
    by (simp add: evaluate_pump)
  have a: "Settled (Chunk (JNumber 2)) \<in> set [Settled (Chunk (JNumber 2)), ReleaseLock]"
    and b: "ReleaseLock \<in> set [Settled (Chunk (JNumber 2)), ReleaseLock]"
    by simp_all
  from unsubscribe_stops_delivery [OF run a, of "JNumber 2"]
    unsubscribe_stops_delivery [OF run b, of "JNumber 2"] run b
  show ?thesis by blast
qed

section \<open>Collecting against iterating\<close>





section \<open>A read that fails during a subscription\<close>

text \<open>The trace of a run that continues after a prefix without rejected reads.\<close>

lemma rejection_after_prefix:
  assumes tr: "tr = xs @ ys"
    and split: "tr = pre @ Settled (Rejected e) # post"
    and xs: "Settled (Rejected e) \<notin> set xs" "OnComplete \<notin> set xs"
    and ys: "\<And>pre'. ys = pre' @ Settled (Rejected e) # post \<Longrightarrow>
      OnComplete \<notin> set pre' \<and> (\<exists>w'. post = ReleaseLock # fst (catch_block s e w'))"
  shows "OnComplete \<notin> set pre \<and> (\<exists>w'. post = ReleaseLock # fst (catch_block s e w'))"
proof -
  from tr split have "xs @ ys = pre @ Settled (Rejected e) # post" by (rule trans [OF sym])
  from split_first [OF this xs(1)]
  obtain pre' where p: "pre = xs @ pre'" "ys = pre' @ Settled (Rejected e) # post"
    by blast
  from ys [OF p(2)] have "OnComplete \<notin> set pre'"
    and post: "\<exists>w'. post = ReleaseLock # fst (catch_block s e w')"
    by blast+
  with xs(2) have "OnComplete \<notin> set pre" by (simp add: p(1))
  with post show ?thesis by blast
qed

lemma pump_rejection:
  "fst (pump truthy s subscribing w ticks) = pre @ Settled (Rejected e) # post \<Longrightarrow>
   OnComplete \<notin> set pre \<and> (\<exists>w'. post = ReleaseLock # fst (catch_block s e w'))"
proof (induction ticks arbitrary: subscribing w pre)
  case Nil
  have "Settled (Rejected e) \<notin> set (fst (pump truthy s subscribing w []))"
    by (cases subscribing) (simp_all add: pump_no_ticks pump_unsubscribed)
  then show ?case using Nil by (rule not_split)
next
  case (Cons t ticks)
  obtain cancelled r where t: "t = (cancelled, r)" by (cases t)
  let ?x = "Settled (Rejected e)"
  let ?tr = "fst (pump truthy s subscribing w (t # ticks))"
  note eq = Cons.prems
  show ?case
  proof (cases subscribing)
    case False
    then have "?x \<notin> set ?tr" by (simp add: pump_unsubscribed)
    then show ?thesis using eq by (rule not_split)
  next
    case True
    show ?thesis
    proof (cases rule: tick_cases [where r = r and s = s and w = w and truthy = truthy
          and cancelled = cancelled])
      case (Rejected e0)
      let ?xs = "Read # unsubscribe_events cancelled"
      let ?ys = "Settled (Rejected e0) # ReleaseLock # fst (catch_block s e0 w)"
      have tr: "?tr = ?xs @ ?ys" using True Rejected by (simp add: t pump_Rejected)
      show ?thesis
      proof (rule rejection_after_prefix [OF tr eq])
        fix pre' assume p: "?ys = pre' @ ?x # post"
        have none: "?x \<notin> set (ReleaseLock # fst (catch_block s e0 w))" by simp
        show "OnComplete \<notin> set pre' \<and> (\<exists>w'. post = ReleaseLock # fst (catch_block s e w'))"
        proof (cases pre')
          case Nil
          with p have "e = e0" and "post = ReleaseLock # fst (catch_block s e0 w)" by auto
          with Nil show ?thesis by auto
        next
          case (Cons a rest')
          with p have "ReleaseLock # fst (catch_block s e0 w) = rest' @ ?x # post" by simp
          with none show ?thesis by (rule not_split)
        qed
      next
        show "?x \<notin> set ?xs" by simp
        show "OnComplete \<notin> set ?xs" by simp
      qed
    next
      case Done_no_callback
      then have "?x \<notin> set ?tr" using True by (simp add: t pump_Done_no_callback)
      then show ?thesis using eq by (rule not_split)
    next
      case (Done f)
      then have "?x \<notin> set ?tr" using True by (simp add: t pump_Done)
      then show ?thesis using eq by (rule not_split)
    next
      case (Done_throws f e1)
      then have "?x \<notin> set ?tr" using True by (simp add: t pump_Done_throws)
      then show ?thesis using eq by (rule not_split)
    next
      case (deliver v)
      let ?c = "callback s v w"
      let ?xs = "Read # Settled (Chunk v) # Callback v # unsubscribe_events (unsubscribed ?c)"
      let ?ys = "fst (pump truthy s (\<not> unsubscribed ?c) (new_state ?c) ticks)"
      have tr: "?tr = ?xs @ ?ys" using True deliver by (simp add: t pump_deliver)
      show ?thesis
      proof (rule rejection_after_prefix [OF tr eq])
        show "?x \<notin> set ?xs" by simp
        show "OnComplete \<notin> set ?xs" by simp
        fix pre' assume "?ys = pre' @ ?x # post"
        then show "OnComplete \<notin> set pre' \<and> (\<exists>w'. post = ReleaseLock # fst (catch_block s e w'))"
          by (rule Cons.IH)
      qed
    next
      case (deliver_throws v e1)
      then have "?x \<notin> set ?tr" using True by (simp add: t pump_deliver_throws)
      then show ?thesis using eq by (rule not_split)
    next
      case (skip v)
      let ?xs = "Read # unsubscribe_events cancelled @ [Settled (Chunk v)]"
      let ?ys = "fst (pump truthy s (\<not> cancelled) w ticks)"
      have tr: "?tr = ?xs @ ?ys" using True skip by (simp add: t pump_skip)
      show ?thesis
      proof (rule rejection_after_prefix [OF tr eq])
        show "?x \<notin> set ?xs" by simp
        show "OnComplete \<notin> set ?xs" by simp
        fix pre' assume "?ys = pre' @ ?x # post"
        then show "OnComplete \<notin> set pre' \<and> (\<exists>w'. post = ReleaseLock # fst (catch_block s e w'))"
          by (rule Cons.IH)
      qed
    qed
  qed
qed

lemma catch_block_shape:
  "take 1 (fst (catch_block s e w)) = [ConsoleError e] \<and>
   length (filter (\<lambda>x. x = OnComplete) (fst (catch_block s e w))) =
     (case onComplete s of None \<Rightarrow> 0 | Some f \<Rightarrow> 1) \<and>
   (\<forall>x. Uncaught x \<in> set (fst (catch_block s e w)) \<longrightarrow>
      (\<exists>f. onComplete s = Some f \<and> thrown (f w) = Some x))"
  by (auto simp: catch_block_def Let_def unsubscribe_events_def split: option.splits)

text \<open>
  C4. When a read of a subscription is rejected with an error, what follows is the
  release of the lock and the \<open>catch\<close> block: the error is logged and the completion
  callback, when there is one, is invoked, for the only time in the run; no read and no
  value callback follows; the only error that can leave the subscription is one thrown by
  the completion callback itself.
\<close>

theorem read_error_completes:
  assumes "fst (subscribe truthy locked s w ticks) = pre @ Settled (Rejected e) # post"
  shows "(\<exists>w'. post = ReleaseLock # fst (catch_block s e w')) \<and>
         take 2 post = [ReleaseLock, ConsoleError e] \<and>
         OnComplete \<notin> set pre \<and>
         length (filter (\<lambda>x. x = OnComplete) post) =
           (case onComplete s of None \<Rightarrow> 0 | Some f \<Rightarrow> 1) \<and>
         Read \<notin> set post \<and> (\<forall>v. Callback v \<notin> set post) \<and>
         (\<forall>x. Uncaught x \<in> set post \<longrightarrow>
            (\<exists>f w'. onComplete s = Some f \<and> thrown (f w') = Some x))"
proof -
  have unlocked: "\<not> locked"
  proof
    assume locked
    then have "Settled (Rejected e) \<notin> set (fst (subscribe truthy locked s w ticks))"
      by (simp add: subscribe_def)
    then show False using assms by (rule not_split)
  qed
  with assms have "fst (pump truthy s True w ticks) = pre @ Settled (Rejected e) # post"
    by (simp add: subscribe_def)
  then have both: "OnComplete \<notin> set pre \<and> (\<exists>w'. post = ReleaseLock # fst (catch_block s e w'))"
    by (rule pump_rejection)
  then have pre: "OnComplete \<notin> set pre" by simp
  from both obtain w' where post: "post = ReleaseLock # fst (catch_block s e w')" by blast
  have q: "quiet (fst (catch_block s e w'))" by simp
  have shape: "take 1 (fst (catch_block s e w')) = [ConsoleError e]"
    "length (filter (\<lambda>x. x = OnComplete) (fst (catch_block s e w'))) =
       (case onComplete s of None \<Rightarrow> 0 | Some f \<Rightarrow> 1)"
    "\<forall>x. Uncaught x \<in> set (fst (catch_block s e w')) \<longrightarrow>
      (\<exists>f. onComplete s = Some f \<and> thrown (f w') = Some x)"
    using catch_block_shape [of s e w'] by blast+
  have 1: "\<exists>w'. post = ReleaseLock # fst (catch_block s e w')" using post by blast
  have 2: "take 2 post = [ReleaseLock, ConsoleError e]"
    using shape(1) by (simp add: post numeral_2_eq_2)
  have 4: "length (filter (\<lambda>x. x = OnComplete) post) =
      (case onComplete s of None \<Rightarrow> 0 | Some f \<Rightarrow> 1)"
    using shape(2) by (simp add: post)
  have 5: "Read \<notin> set post" "\<forall>v. Callback v \<notin> set post"
    using q by (simp_all add: post quiet_def)
  have 6: "\<forall>x. Uncaught x \<in> set post \<longrightarrow>
      (\<exists>f w'. onComplete s = Some f \<and> thrown (f w') = Some x)"
    using shape(3) by (simp add: post) blast
  from 1 2 pre 4 5 6 show ?thesis by blast
qed

text \<open>The second read fails with \<open>boom\<close>; the third is never started.\<close>

theorem read_error_completes_witness:
  "fst (subscribe ToBoolean False recorder []
      [(False, Chunk (JNumber 1)), (False, Rejected ''boom''), (False, Chunk (JNumber 3))]) =
     [Read, Settled (Chunk (JNumber 1)), Callback (JNumber 1), Read] @
       Settled (Rejected ''boom'') # [ReleaseLock, ConsoleError ''boom'', OnComplete] \<and>
   take 2 [ReleaseLock, ConsoleError ''boom'', OnComplete :: js_value event] =
     [ReleaseLock, ConsoleError ''boom''] \<and>
   OnComplete \<notin> set [Read, Settled (Chunk (JNumber 1)), Callback (JNumber 1), Read] \<and>
   length (filter (\<lambda>x. x = OnComplete) [ReleaseLock, ConsoleError ''boom'', OnComplete :: js_value event]) = 1 \<and>
   Read \<notin> set [ReleaseLock, ConsoleError ''boom'', OnComplete :: js_value event]"
proof -
  let ?ticks = "[(False, Chunk (JNumber 1)), (False, Rejected ''boom''), (False, Chunk (JNumber 3))]"
  have run: "fst (subscribe ToBoolean False recorder [] ?ticks) =
     [Read, Settled (Chunk (JNumber 1)), Callback (JNumber 1), Read] @
       Settled (Rejected ''boom'') # [ReleaseLock, ConsoleError ''boom'', OnComplete]"
    by (simp add: evaluate_pump)
  have oc: "(case onComplete recorder of None \<Rightarrow> 0 | Some f \<Rightarrow> 1) = (1::nat)"
    by (simp add: recorder_def)
  from read_error_completes [OF run] run oc show ?thesis by simp
qed

section \<open>Flushing the splitter\<close>

text \<open>
  C5 (as amended). At the flush the pending buffer is enqueued as one final block exactly
  when it holds a character that is not white space; the flush leaves the buffer as it
  is.
\<close>

theorem flush_emits_nonblank_buffer:
  "fst (splitStream_flush st) =
     (if \<exists>c \<in> set (buffer st). \<not> is_white_space c then [buffer st] else []) \<and>
   buffer (snd (splitStream_flush st)) = buffer st"
  by (simp add: splitStream_flush_def isValidString_iff)

theorem flush_emits_nonblank_buffer_witness:
  "fst (splitStream_flush \<lparr>buffer = js ''id: 1''\<rparr>) = [js ''id: 1''] \<and>
   fst (splitStream_flush \<lparr>buffer = js '' ''\<rparr>) = [] \<and>
   buffer (snd (splitStream_flush \<lparr>buffer = js ''id: 1''\<rparr>)) = js ''id: 1''"
proof -
  have a: "\<exists>c \<in> set (buffer \<lparr>buffer = js ''id: 1''\<rparr>). \<not> is_white_space c"
    by (simp add: js_simps is_white_space_def)
  have b: "\<not> (\<exists>c \<in> set (buffer \<lparr>buffer = js '' ''\<rparr>). \<not> is_white_space c)"
    by (simp add: js_simps is_white_space_def)
  from flush_emits_nonblank_buffer [of "\<lparr>buffer = js ''id: 1''\<rparr>"] a
  have 1: "fst (splitStream_flush \<lparr>buffer = js ''id: 1''\<rparr>) = [js ''id: 1''] \<and>
      buffer (snd (splitStream_flush \<lparr>buffer = js ''id: 1''\<rparr>)) = js ''id: 1''"
    by simp
  from flush_emits_nonblank_buffer [of "\<lparr>buffer = js '' ''\<rparr>"] b
  have 2: "fst (splitStream_flush \<lparr>buffer = js '' ''\<rparr>) = []"
    by simp
  from 1 2 show ?thesis by blast
qed

text \<open>
  C5 as stated also says that the buffer is empty after the flush. After the single chunk
  \<open>id: 1\<close> the buffer holds \<open>id: 1\<close>, and it still does after the flush.
\<close>

theorem flush_clears_buffer_counterexample:
  "buffer (snd (splitStream_transform splitStream (js ''id: 1''))) = js ''id: 1'' \<and>
   buffer (snd (splitStream_flush (snd (splitStream_transform splitStream (js ''id: 1''))))) \<noteq> []"
proof -
  have sp: "String_split (js ''id: 1'') DEFAULT_STREAM_SEPARATOR = [js ''id: 1'']"
    by (simp add: evaluate_split)
  have tr: "splitStream_transform splitStream (js ''id: 1'') = ([], \<lparr>buffer = js ''id: 1''\<rparr>)"
    by (simp add: splitStream_transform_def splitStream_def Let_def sp)
  have ne: "js ''id: 1'' \<noteq> []" by (simp add: js_simps)
  show ?thesis by (simp add: tr splitStream_flush_def ne)
qed

section \<open>Key and value of a field line\<close>

text \<open>
  C6. In a line that contains the separator, the key is the text before its first
  occurrence and the value is the text after that occurrence, trimmed: the rest of the
  line is the value with white space only around it, so further separators stay in the
  value. The field is stored when the key is not blank.
\<close>

theorem first_separator_wins:
  assumes "String_includes line DEFAULT_KV_SEPARATOR"
  shows "(let key = takeWhile (\<lambda>c. c \<noteq> 0x3A) line;
              rest = tl (dropWhile (\<lambda>c. c \<noteq> 0x3A) line)
          in line = key @ DEFAULT_KV_SEPARATOR @ rest \<and>
             \<not> String_includes key DEFAULT_KV_SEPARATOR \<and>
             parse_line st line =
               (if isValidString key
                then st\<lparr>sseObject := object_set (sseObject st) key (String_trim rest)\<rparr>
                else st) \<and>
             (\<exists>l r. rest = l @ String_trim rest @ r \<and>
                list_all is_white_space l \<and> list_all is_white_space r))"
proof -
  from assms have mem: "0x3A \<in> set line"
    by (simp add: DEFAULT_KV_SEPARATOR_def String_includes_single)
  then have "dropWhile (\<lambda>c. c \<noteq> 0x3A) line \<noteq> []" by simp
  moreover have "hd (dropWhile (\<lambda>c. c \<noteq> 0x3A) line) = 0x3A"
    using mem hd_dropWhile [of "\<lambda>c. c \<noteq> 0x3A" line] by simp
  ultimately have "dropWhile (\<lambda>c. c \<noteq> 0x3A) line = 0x3A # tl (dropWhile (\<lambda>c. c \<noteq> 0x3A) line)"
    by (metis list.collapse)
  then have split: "line = takeWhile (\<lambda>c. c \<noteq> 0x3A) line @ DEFAULT_KV_SEPARATOR @
      tl (dropWhile (\<lambda>c. c \<noteq> 0x3A) line)"
    by (metis DEFAULT_KV_SEPARATOR_def append_Cons append_Nil takeWhile_dropWhile_id)
  have nokey: "\<not> String_includes (takeWhile (\<lambda>c. c \<noteq> 0x3A) line) DEFAULT_KV_SEPARATOR"
    by (auto simp: DEFAULT_KV_SEPARATOR_def String_includes_single dest: set_takeWhileD)
  show ?thesis
    unfolding Let_def
    using split nokey mem String_trim_decomp [of "tl (dropWhile (\<lambda>c. c \<noteq> 0x3A) line)"]
    by (simp add: parse_line_fields Let_def)
qed

text \<open>The line \<open>data: https://a.com:8080/x\<close> of the specification.\<close>

theorem first_separator_wins_witness:
  "String_includes (js ''data: https://a.com:8080/x'') DEFAULT_KV_SEPARATOR \<and>
   parse_line \<lparr>sseObject = [], warnings = []\<rparr> (js ''data: https://a.com:8080/x'') =
     \<lparr>sseObject = [(js ''data'', js ''https://a.com:8080/x'')], warnings = []\<rparr>"
proof -
  let ?line = "js ''data: https://a.com:8080/x''"
  let ?st = "\<lparr>sseObject = [], warnings = []\<rparr>"
  have h: "String_includes ?line DEFAULT_KV_SEPARATOR"
    by (simp add: js_simps String_includes_single DEFAULT_KV_SEPARATOR_def)
  have k: "takeWhile (\<lambda>c. c \<noteq> 0x3A) ?line = js ''data''"
    by (simp add: js_simps)
  have r: "tl (dropWhile (\<lambda>c. c \<noteq> 0x3A) ?line) = js '' https://a.com:8080/x''"
    by (simp add: js_simps)
  have t: "String_trim (js '' https://a.com:8080/x'') = js ''https://a.com:8080/x''"
    by (simp add: js_simps String_trim_def is_white_space_def)
  have v: "isValidString (js ''data'')"
    by (simp add: evaluate_valid)
  have s: "object_set [] (js ''data'') (js ''https://a.com:8080/x'') =
      [(js ''data'', js ''https://a.com:8080/x'')]"
    by (simp add: js_simps object_set_def proto_key_def)
  from first_separator_wins [OF h, of ?st]
  have "parse_line ?st ?line =
      (if isValidString (js ''data'')
       then ?st\<lparr>sseObject := object_set (sseObject ?st) (js ''data'')
          (String_trim (js '' https://a.com:8080/x''))\<rparr>
       else ?st)"
    unfolding Let_def k r by (elim conjE)
  with h v t s show ?thesis by simp
qed

section \<open>Blank blocks and empty objects\<close>

lemma length_Object_keys: "length (Object_keys obj) = length obj"
  using sum_length_filter_compl [of is_array_index "map fst obj"]
  by (simp add: Object_keys_def Let_def)

lemma Object_keys_empty: "Object_keys obj = [] \<longleftrightarrow> obj = []"
  using length_Object_keys [of obj] by (metis length_0_conv)

lemma String_split_set:
  "sep \<noteq> [] \<Longrightarrow> l \<in> set (String_split s sep) \<Longrightarrow> set l \<subseteq> set s"
proof (induction s sep arbitrary: l rule: String_split.induct)
  case (1 s sep)
  show ?case
  proof (cases "StringIndexOf s sep")
    case None
    with 1(2,3) show ?thesis by (simp add: String_split.simps [of s])
  next
    case (Some j)
    with 1(2,3) consider "l = take j s" | "l \<in> set (String_split (drop (j + length sep) s) sep)"
      by (auto simp add: String_split.simps [of s])
    then show ?thesis
    proof cases
      case 1
      then show ?thesis by (simp add: set_take_subset)
    next
      case 2
      with "1.IH" [OF "1.prems"(1) Some "1.prems"(1)] have "set l \<subseteq> set (drop (j + length sep) s)"
        by simp
      then show ?thesis using set_drop_subset by fastforce
    qed
  qed
qed

lemma foldl_parse_line_no_separator:
  "\<forall>l \<in> set ls. 0x3A \<notin> set l \<Longrightarrow> sseObject (foldl parse_line st ls) = sseObject st"
  by (induction ls arbitrary: st) (simp_all add: parse_line_fields)

lemma blank_block_no_object:
  assumes "\<not> isValidString partChunk"
  shows "fst (splitEventPart_transform partChunk) = []"
proof -
  from assms have white: "\<forall>c \<in> set partChunk. is_white_space c"
    by (simp add: isValidString_iff)
  have "\<not> is_white_space 0x3A" by (simp add: is_white_space_def)
  with white have "0x3A \<notin> set partChunk" by blast
  then have "\<forall>l \<in> set (String_split partChunk DEFAULT_PART_SEPARATOR). 0x3A \<notin> set l"
    using String_split_set [of DEFAULT_PART_SEPARATOR _ partChunk]
    by (auto simp: DEFAULT_PART_SEPARATOR_def)
  then have "sseObject (parse_lines (String_split partChunk DEFAULT_PART_SEPARATOR)) = []"
    unfolding parse_lines_def by (simp add: foldl_parse_line_no_separator)
  then show ?thesis
    by (simp add: splitEventPart_transform_def Let_def Object_keys_def)
qed

lemma splitStream_run_valid:
  "part \<in> set (splitStream_run splitStream chunks) \<Longrightarrow> isValidString part"
proof -
  have "StringIndexOf (buffer splitStream) DEFAULT_STREAM_SEPARATOR = None"
    by (simp add: splitStream_def DEFAULT_STREAM_SEPARATOR_def)
  then have "splitStream_run splitStream chunks =
      filter isValidString (String_split (buffer splitStream @ concat chunks) DEFAULT_STREAM_SEPARATOR)"
    by (rule splitStream_run_split)
  then show "part \<in> set (splitStream_run splitStream chunks) \<Longrightarrow> isValidString part"
    by simp
qed

lemma splitEventPart_nonempty:
  "obj \<in> set (fst (splitEventPart_transform partChunk)) \<Longrightarrow> obj \<noteq> [] \<and> Object_keys obj \<noteq> []"
  by (auto simp: splitEventPart_transform_def Let_def Object_keys_empty split: if_splits)

text \<open>
  C7. The splitter only enqueues blocks that are not blank, so a blank block never
  reaches the parser (and would give no object if it did); a block whose object has no
  key gives nothing; so no object the parser enqueues, and no object of the pipeline's
  output, is empty.
\<close>

theorem blank_blocks_dropped:
  "(\<forall>part \<in> set (splitStream_run splitStream chunks). isValidString part) \<and>
   (\<not> isValidString partChunk \<longrightarrow> fst (splitEventPart_transform partChunk) = []) \<and>
   (Object_keys (sseObject (parse_lines (String_split partChunk DEFAULT_PART_SEPARATOR))) = [] \<longrightarrow>
      fst (splitEventPart_transform partChunk) = []) \<and>
   (\<forall>obj \<in> set (fst (splitEventPart_transform partChunk)). obj \<noteq> [] \<and> Object_keys obj \<noteq> []) \<and>
   (\<forall>obj \<in> set (default_pipeline chunks). obj \<noteq> [] \<and> Object_keys obj \<noteq> [])"
proof (intro conjI ballI impI)
  fix part assume "part \<in> set (splitStream_run splitStream chunks)"
  then show "isValidString part" by (rule splitStream_run_valid)
next
  assume "\<not> isValidString partChunk"
  then show "fst (splitEventPart_transform partChunk) = []" by (rule blank_block_no_object)
next
  assume "Object_keys (sseObject (parse_lines (String_split partChunk DEFAULT_PART_SEPARATOR))) = []"
  then show "fst (splitEventPart_transform partChunk) = []"
    by (simp add: splitEventPart_transform_def Let_def)
next
  fix obj assume "obj \<in> set (fst (splitEventPart_transform partChunk))"
  then show "obj \<noteq> []" "Object_keys obj \<noteq> []" using splitEventPart_nonempty by blast+
next
  fix obj assume "obj \<in> set (default_pipeline chunks)"
  then obtain part where "obj \<in> set (fst (splitEventPart_transform part))"
    by (auto simp: default_pipeline_def)
  then show "obj \<noteq> []" "Object_keys obj \<noteq> []" using splitEventPart_nonempty by blast+
qed

theorem blank_blocks_dropped_witness:
  "splitStream_run splitStream [js ''id:7\<newline>\<newline> \<newline>\<newline>''] = [js ''id:7''] \<and>
   isValidString (js ''id:7'') \<and>
   \<not> isValidString (js '' '') \<and> fst (splitEventPart_transform (js '' '')) = [] \<and>
   Object_keys (sseObject (parse_lines (String_split (js ''x'') DEFAULT_PART_SEPARATOR))) = [] \<and>
   fst (splitEventPart_transform (js ''x'')) = [] \<and>
   default_pipeline [js ''id:7\<newline>\<newline> \<newline>\<newline>''] = [[(js ''id'', js ''7'')]] \<and>
   Object_keys [(js ''id'', js ''7'')] \<noteq> []"
proof -
  let ?chunks = "[js ''id:7\<newline>\<newline> \<newline>\<newline>'']"
  note inst = blank_blocks_dropped [of ?chunks]
  have sp: "String_split (js ''id:7\<newline>\<newline> \<newline>\<newline>'') DEFAULT_STREAM_SEPARATOR =
      [js ''id:7'', js '' '', js []]"
    by (simp add: evaluate_split)
  have v: "isValidString (js ''id:7'')" "\<not> isValidString (js '' '')" "\<not> isValidString (js [])"
    by (simp_all add: evaluate_valid)
  have run: "splitStream_run splitStream ?chunks = [js ''id:7'']"
    by (simp add: splitStream_transform_def splitStream_flush_def splitStream_def
        Let_def sp v)
  from inst [of "js '' ''"]
  have "\<forall>part \<in> set (splitStream_run splitStream ?chunks). isValidString part"
    by blast
  then have valid: "isValidString (js ''id:7'')"
    unfolding run by simp
  have blank: "\<not> isValidString (js '' '')"
    by (simp add: evaluate_valid)
  have none: "fst (splitEventPart_transform (js '' '')) = []"
    using inst [of "js '' ''"] blank by blast
  have sx: "String_split (js ''x'') DEFAULT_PART_SEPARATOR = [js ''x'']"
    by (simp add: evaluate_split)
  have kx: "Object_keys (sseObject (parse_lines (String_split (js ''x'') DEFAULT_PART_SEPARATOR))) = []"
    unfolding sx by (simp add: evaluate_line evaluate_keys)
  have nx: "fst (splitEventPart_transform (js ''x'')) = []"
    using inst [of "js ''x''"] kx by blast
  have s7: "String_split (js ''id:7'') DEFAULT_PART_SEPARATOR = [js ''id:7'']"
    by (simp add: evaluate_split)
  have p7: "sseObject (parse_lines [js ''id:7'']) = [(js ''id'', js ''7'')]"
    by (simp add: evaluate_line)
  have k7: "Object_keys [(js ''id'', js ''7'')] = [js ''id'']"
    by (simp add: evaluate_keys)
  have part: "fst (splitEventPart_transform (js ''id:7'')) = [[(js ''id'', js ''7'')]]"
    unfolding splitEventPart_transform_def Let_def s7 p7 k7 by simp
  have pipe: "default_pipeline ?chunks = [[(js ''id'', js ''7'')]]"
    unfolding default_pipeline_def run by (simp add: part)
  from inst [of "js '' ''"]
  have "\<forall>obj \<in> set (default_pipeline ?chunks). obj \<noteq> [] \<and> Object_keys obj \<noteq> []"
    by blast
  then have keys: "Object_keys [(js ''id'', js ''7'')] \<noteq> []"
    unfolding pipe by simp
  from run valid blank none kx nx pipe keys show ?thesis by blast
qed

section \<open>Repeated keys\<close>

lemma set_Object_keys: "set (Object_keys obj) = fst ` set obj"
  by (auto simp: Object_keys_def Let_def)

lemma distinct_Object_keys: "distinct (map fst obj) \<Longrightarrow> distinct (Object_keys obj)"
  by (auto simp: Object_keys_def Let_def)

lemma Object_keys_other:
  "filter (\<lambda>k. \<not> is_array_index k) (Object_keys obj) =
     filter (\<lambda>k. \<not> is_array_index k) (map fst obj)"
proof -
  have "filter (\<lambda>k. \<not> is_array_index k) (sort_key decimal_value (filter is_array_index (map fst obj))) = []"
    by (simp add: filter_empty_conv)
  then show ?thesis by (simp add: Object_keys_def Let_def)
qed

lemma Object_keys_index:
  "filter is_array_index (Object_keys obj) =
     sort_key decimal_value (filter is_array_index (map fst obj))"
proof -
  have "filter is_array_index (sort_key decimal_value (filter is_array_index (map fst obj))) =
      sort_key decimal_value (filter is_array_index (map fst obj))"
    by (simp add: filter_id_conv)
  then show ?thesis by (simp add: Object_keys_def Let_def)
qed

lemma Object_keys_split:
  "Object_keys obj = filter is_array_index (Object_keys obj) @
     filter (\<lambda>k. \<not> is_array_index k) (Object_keys obj)"
  by (simp only: Object_keys_other Object_keys_index) (simp add: Object_keys_def Let_def)

lemma stored_fields_snoc:
  "stored_fields (ls @ [l]) =
     stored_fields ls @
     (let key = takeWhile (\<lambda>c. c \<noteq> 0x3A) l;
          val = String_trim (tl (dropWhile (\<lambda>c. c \<noteq> 0x3A) l))
      in if 0x3A \<in> set l \<and> isValidString key \<and> key \<noteq> proto_key then [(key, val)] else [])"
  by (simp add: stored_fields_def line_fields_def Let_def)

lemma parse_line_object:
  "sseObject (parse_line st l) =
     (let key = takeWhile (\<lambda>c. c \<noteq> 0x3A) l;
          val = String_trim (tl (dropWhile (\<lambda>c. c \<noteq> 0x3A) l))
      in if 0x3A \<in> set l \<and> isValidString key \<and> key \<noteq> proto_key
         then AList.update key val (sseObject st) else sseObject st)"
  by (simp add: parse_line_fields Let_def object_set_def)

lemma parse_lines_snoc: "parse_lines (ls @ [l]) = parse_line (parse_lines ls) l"
  by (simp add: parse_lines_def)

lemma first_occurrences_snoc:
  "rev (remdups (rev (xs @ [k]))) =
     (if k \<in> set xs then rev (remdups (rev xs)) else rev (remdups (rev xs)) @ [k])"
  by simp

lemma parse_lines_keys:
  "map fst (sseObject (parse_lines ls)) = rev (remdups (rev (map fst (stored_fields ls))))"
proof (induction ls rule: rev_induct)
  case Nil
  show ?case by (simp add: parse_lines_def stored_fields_def line_fields_def)
next
  case (snoc l ls)
  have keys: "set (map fst (sseObject (parse_lines ls))) = set (map fst (stored_fields ls))"
    by (simp only: snoc.IH set_rev set_remdups)
  show ?case
    unfolding parse_lines_snoc parse_line_object stored_fields_snoc Let_def
    using snoc.IH keys by (simp add: update_keys)
qed

lemma parse_lines_map_of:
  "map_of (sseObject (parse_lines ls)) = map_of (rev (stored_fields ls))"
proof (induction ls rule: rev_induct)
  case Nil
  show ?case by (simp add: parse_lines_def stored_fields_def line_fields_def)
next
  case (snoc l ls)
  show ?case
    unfolding parse_lines_snoc parse_line_object stored_fields_snoc Let_def
    using snoc.IH by (simp add: update_conv')
qed

text \<open>
  C8 (as amended). The fields a block stores are those of its lines whose key is not
  blank and is not \<open>__proto__\<close>. The object holds each of their keys exactly once, with
  the value of the last line that has the key (\<open>map_of\<close> takes the first entry of a
  list, so \<open>map_of (rev fields)\<close> looks up the last field with the key). Its keys are
  listed with the array-index keys first, in ascending numeric order, and then the other
  keys in the order of their first lines (\<open>rev (remdups (rev ks))\<close> keeps the first
  occurrence of each element of \<open>ks\<close>).
\<close>

theorem duplicate_key_last_wins:
  "(let obj = sseObject (parse_lines lines); fields = stored_fields lines
    in distinct (Object_keys obj) \<and>
       set (Object_keys obj) = fst ` set fields \<and>
       map_of obj = map_of (rev fields) \<and>
       Object_keys obj =
         filter is_array_index (Object_keys obj) @ filter (\<lambda>k. \<not> is_array_index k) (Object_keys obj) \<and>
       sorted (map decimal_value (filter is_array_index (Object_keys obj))) \<and>
       filter (\<lambda>k. \<not> is_array_index k) (Object_keys obj) =
         rev (remdups (rev (filter (\<lambda>k. \<not> is_array_index k) (map fst fields)))))"
proof -
  let ?obj = "sseObject (parse_lines lines)"
  let ?fields = "stored_fields lines"
  have keys: "map fst ?obj = rev (remdups (rev (map fst ?fields)))"
    by (rule parse_lines_keys)
  then have d: "distinct (map fst ?obj)" by simp
  then have 1: "distinct (Object_keys ?obj)" by (rule distinct_Object_keys)
  have "set (map fst ?obj) = set (map fst ?fields)" by (simp only: keys set_rev set_remdups)
  then have 2: "set (Object_keys ?obj) = fst ` set ?fields" by (simp add: set_Object_keys)
  have 3: "map_of ?obj = map_of (rev ?fields)" by (rule parse_lines_map_of)
  have 4: "Object_keys ?obj = filter is_array_index (Object_keys ?obj) @
      filter (\<lambda>k. \<not> is_array_index k) (Object_keys ?obj)"
    by (rule Object_keys_split)
  have 5: "sorted (map decimal_value (filter is_array_index (Object_keys ?obj)))"
    by (simp only: Object_keys_index sorted_sort_key)
  have 6: "filter (\<lambda>k. \<not> is_array_index k) (Object_keys ?obj) =
      rev (remdups (rev (filter (\<lambda>k. \<not> is_array_index k) (map fst ?fields))))"
    by (simp only: Object_keys_other keys rev_filter remdups_filter)
  from 1 2 3 4 5 6 show ?thesis unfolding Let_def by blast
qed

text \<open>The block \<open>event:a\<close>, \<open>event:b\<close> of the specification.\<close>

theorem duplicate_key_last_wins_witness:
  "stored_fields [js ''event:a'', js ''event:b''] =
     [(js ''event'', js ''a''), (js ''event'', js ''b'')] \<and>
   set (Object_keys (sseObject (parse_lines [js ''event:a'', js ''event:b'']))) = {js ''event''} \<and>
   distinct (Object_keys (sseObject (parse_lines [js ''event:a'', js ''event:b'']))) \<and>
   map_of (sseObject (parse_lines [js ''event:a'', js ''event:b''])) (js ''event'') = Some (js ''b'')"
proof -
  have f: "stored_fields [js ''event:a'', js ''event:b''] =
      [(js ''event'', js ''a''), (js ''event'', js ''b'')]"
    by (simp add: stored_fields_def line_fields_def evaluate_valid proto_key_def)
  from duplicate_key_last_wins [of "[js ''event:a'', js ''event:b'']"]
  have "distinct (Object_keys (sseObject (parse_lines [js ''event:a'', js ''event:b'']))) \<and>
      set (Object_keys (sseObject (parse_lines [js ''event:a'', js ''event:b'']))) =
        fst ` set (stored_fields [js ''event:a'', js ''event:b'']) \<and>
      map_of (sseObject (parse_lines [js ''event:a'', js ''event:b''])) =
        map_of (rev (stored_fields [js ''event:a'', js ''event:b'']))"
    unfolding Let_def by blast
  with f show ?thesis by (simp add: js_simps)
qed

text \<open>
  C8 as stated fails for a blank key and for \<open>__proto__\<close>, which occur on two lines
  below and are absent from the object, and for the key \<open>1\<close>, which is met after
  \<open>event\<close> and listed before it.
\<close>

theorem duplicate_key_counterexample:
  "fst (splitEventPart_transform (js '' :a\<newline> :b\<newline>id:7'')) = [[(js ''id'', js ''7'')]] \<and>
   fst (splitEventPart_transform (js ''__proto__:a\<newline>__proto__:b\<newline>id:7'')) =
     [[(js ''id'', js ''7'')]] \<and>
   fst (splitEventPart_transform (js ''event:a\<newline>1:b\<newline>1:c'')) =
     [[(js ''event'', js ''a''), (js ''1'', js ''c'')]] \<and>
   Object_keys [(js ''event'', js ''a''), (js ''1'', js ''c'')] = [js ''1'', js ''event'']"
proof -
  have s1: "String_split (js '' :a\<newline> :b\<newline>id:7'') DEFAULT_PART_SEPARATOR =
      [js '' :a'', js '' :b'', js ''id:7'']"
    by (simp add: evaluate_split)
  have p1: "sseObject (parse_lines [js '' :a'', js '' :b'', js ''id:7'']) = [(js ''id'', js ''7'')]"
    by (simp add: evaluate_line)
  have s2: "String_split (js ''__proto__:a\<newline>__proto__:b\<newline>id:7'') DEFAULT_PART_SEPARATOR =
      [js ''__proto__:a'', js ''__proto__:b'', js ''id:7'']"
    by (simp add: evaluate_split)
  have p2: "sseObject (parse_lines [js ''__proto__:a'', js ''__proto__:b'', js ''id:7'']) =
      [(js ''id'', js ''7'')]"
    by (simp add: evaluate_line)
  have s3: "String_split (js ''event:a\<newline>1:b\<newline>1:c'') DEFAULT_PART_SEPARATOR =
      [js ''event:a'', js ''1:b'', js ''1:c'']"
    by (simp add: evaluate_split)
  have p3: "sseObject (parse_lines [js ''event:a'', js ''1:b'', js ''1:c'']) =
      [(js ''event'', js ''a''), (js ''1'', js ''c'')]"
    by (simp add: evaluate_line)
  have k: "Object_keys [(js ''event'', js ''a''), (js ''1'', js ''c'')] = [js ''1'', js ''event'']"
    by (simp add: evaluate_keys)
  have k1: "Object_keys [(js ''id'', js ''7'')] = [js ''id'']"
    by (simp add: evaluate_keys)
  show ?thesis
    unfolding splitEventPart_transform_def Let_def s1 s2 s3 p1 p2 p3 k k1 by simp
qed

section \<open>Lines without a separator\<close>

lemma parse_line_object_cong:
  "sseObject st = sseObject st' \<Longrightarrow> sseObject (parse_line st l) = sseObject (parse_line st' l)"
  by (simp add: parse_line_fields Let_def)

lemma foldl_parse_line_object_cong:
  "sseObject st = sseObject st' \<Longrightarrow>
   sseObject (foldl parse_line st ls) = sseObject (foldl parse_line st' ls)"
proof (induction ls arbitrary: st st')
  case Nil
  then show ?case by simp
next
  case (Cons l ls)
  from Cons.prems have "sseObject (parse_line st l) = sseObject (parse_line st' l)"
    by (rule parse_line_object_cong)
  then have "sseObject (foldl parse_line (parse_line st l) ls) =
      sseObject (foldl parse_line (parse_line st' l) ls)"
    by (rule Cons.IH)
  then show ?case by simp
qed

lemma parse_line_warnings_mono: "set (warnings st) \<subseteq> set (warnings (parse_line st l))"
  by (auto simp add: parse_line_fields Let_def)

lemma foldl_parse_line_warnings_mono:
  "set (warnings st) \<subseteq> set (warnings (foldl parse_line st ls))"
proof (induction ls arbitrary: st)
  case Nil
  then show ?case by simp
next
  case (Cons l ls)
  have "set (warnings st) \<subseteq> set (warnings (parse_line st l))"
    by (rule parse_line_warnings_mono)
  also have "\<dots> \<subseteq> set (warnings (foldl parse_line (parse_line st l) ls))"
    by (rule Cons.IH)
  finally show ?case by simp
qed

text \<open>
  In the loop, a line without the separator only adds its warning to the log: the
  object under construction is unchanged and the lines after it are treated as if it
  were absent.
\<close>

lemma malformed_line_in_loop:
  assumes "\<not> String_includes line DEFAULT_KV_SEPARATOR"
  shows "parse_line st line = st\<lparr>warnings := warnings st @ [warning_message line]\<rparr> \<and>
         sseObject (foldl parse_line st (pre @ line # post)) =
           sseObject (foldl parse_line st (pre @ post)) \<and>
         warning_message line \<in> set (warnings (foldl parse_line st (pre @ line # post)))"
proof -
  have step: "parse_line s line = s\<lparr>warnings := warnings s @ [warning_message line]\<rparr>" for s
    using assms by (simp add: parse_line_def)
  let ?s = "foldl parse_line st pre"
  have "sseObject (parse_line ?s line) = sseObject ?s" by (simp add: step)
  then have obj: "sseObject (foldl parse_line (parse_line ?s line) post) =
      sseObject (foldl parse_line ?s post)"
    by (rule foldl_parse_line_object_cong)
  have "warning_message line \<in> set (warnings (parse_line ?s line))" by (simp add: step)
  then have "warning_message line \<in> set (warnings (foldl parse_line (parse_line ?s line) post))"
    using foldl_parse_line_warnings_mono by blast
  with obj step show ?thesis by simp
qed

text \<open>A line whose field the loop stores gives one of the keys of the object.\<close>

lemma stored_key_in_Object_keys:
  assumes "l \<in> set ls" and "0x3A \<in> set l"
    and "isValidString (takeWhile (\<lambda>c. c \<noteq> 0x3A) l)"
    and "takeWhile (\<lambda>c. c \<noteq> 0x3A) l \<noteq> proto_key"
  shows "takeWhile (\<lambda>c. c \<noteq> 0x3A) l \<in> set (Object_keys (sseObject (parse_lines ls)))"
proof -
  let ?key = "takeWhile (\<lambda>c. c \<noteq> 0x3A) l"
  let ?val = "String_trim (tl (dropWhile (\<lambda>c. c \<noteq> 0x3A) l))"
  from assms(1,2) have "(?key, ?val) \<in> set (line_fields ls)"
    by (auto simp add: line_fields_def)
  with assms(3,4) have "(?key, ?val) \<in> set (stored_fields ls)"
    by (simp add: stored_fields_def)
  then have "?key \<in> set (map fst (stored_fields ls))" by force
  also have "set (map fst (stored_fields ls)) = set (map fst (sseObject (parse_lines ls)))"
    by (simp only: parse_lines_keys set_rev set_remdups)
  also have "\<dots> = set (Object_keys (sseObject (parse_lines ls)))"
    by (simp add: set_Object_keys)
  finally show ?thesis .
qed

text \<open>
  C9. When a line of a block has no separator, \<open>splitEventPart\<close> logs the warning for
  that line and goes on: the object it builds is the one the other lines of the block
  give, that object is what the block enqueues (nothing when it has no key), and every
  later line with a separator and a storable key has its key in the enqueued object. The
  transform is a total function with no failing branch.
\<close>

theorem malformed_line_skipped:
  assumes lines: "String_split partChunk DEFAULT_PART_SEPARATOR = pre @ line # post"
    and bad: "\<not> String_includes line DEFAULT_KV_SEPARATOR"
  shows "parse_line st line = st\<lparr>warnings := warnings st @ [warning_message line]\<rparr> \<and>
         sseObject (foldl parse_line st (pre @ line # post)) =
           sseObject (foldl parse_line st (pre @ post)) \<and>
         warning_message line \<in> set (warnings (foldl parse_line st (pre @ line # post))) \<and>
         warning_message line \<in> set (snd (splitEventPart_transform partChunk)) \<and>
         sseObject (parse_lines (String_split partChunk DEFAULT_PART_SEPARATOR)) =
           sseObject (parse_lines (pre @ post)) \<and>
         fst (splitEventPart_transform partChunk) =
           (if length (Object_keys (sseObject (parse_lines (pre @ post)))) = 0 then []
            else [sseObject (parse_lines (pre @ post))]) \<and>
         (\<forall>l \<in> set post.
            String_includes l DEFAULT_KV_SEPARATOR \<and>
            isValidString (takeWhile (\<lambda>c. c \<noteq> 0x3A) l) \<and>
            takeWhile (\<lambda>c. c \<noteq> 0x3A) l \<noteq> proto_key \<longrightarrow>
            (\<exists>obj. fst (splitEventPart_transform partChunk) = [obj] \<and>
               takeWhile (\<lambda>c. c \<noteq> 0x3A) l \<in> set (Object_keys obj)))"
proof -
  note loop = malformed_line_in_loop [OF bad]
  let ?lines = "String_split partChunk DEFAULT_PART_SEPARATOR"
  let ?init = "\<lparr>sseObject = [], warnings = []\<rparr>"
  have 1: "parse_line st line = st\<lparr>warnings := warnings st @ [warning_message line]\<rparr>"
    using loop [of st] by blast
  have 2: "sseObject (foldl parse_line st (pre @ line # post)) =
      sseObject (foldl parse_line st (pre @ post))"
    using loop [of st pre post] by blast
  have 3: "warning_message line \<in> set (warnings (foldl parse_line st (pre @ line # post)))"
    using loop [of st pre post] by blast
  have "warning_message line \<in> set (warnings (parse_lines ?lines))"
    unfolding parse_lines_def lines using loop [of ?init pre post] by blast
  then have 4: "warning_message line \<in> set (snd (splitEventPart_transform partChunk))"
    by (simp add: splitEventPart_transform_def Let_def)
  have 5: "sseObject (parse_lines ?lines) = sseObject (parse_lines (pre @ post))"
    unfolding parse_lines_def lines using loop [of ?init pre post] by blast
  have 6: "fst (splitEventPart_transform partChunk) =
      (if length (Object_keys (sseObject (parse_lines (pre @ post)))) = 0 then []
       else [sseObject (parse_lines (pre @ post))])"
    by (simp add: splitEventPart_transform_def Let_def 5)
  have 7: "\<exists>obj. fst (splitEventPart_transform partChunk) = [obj] \<and>
      takeWhile (\<lambda>c. c \<noteq> 0x3A) l \<in> set (Object_keys obj)"
    if l: "l \<in> set post" and sep: "String_includes l DEFAULT_KV_SEPARATOR"
      and valid: "isValidString (takeWhile (\<lambda>c. c \<noteq> 0x3A) l)"
      and proto: "takeWhile (\<lambda>c. c \<noteq> 0x3A) l \<noteq> proto_key" for l
  proof -
    from l have "l \<in> set ?lines" by (simp add: lines)
    moreover from sep have "0x3A \<in> set l"
      by (simp add: DEFAULT_KV_SEPARATOR_def String_includes_single)
    ultimately have key: "takeWhile (\<lambda>c. c \<noteq> 0x3A) l \<in>
        set (Object_keys (sseObject (parse_lines ?lines)))"
      using valid proto by (rule stored_key_in_Object_keys)
    then have "Object_keys (sseObject (parse_lines ?lines)) \<noteq> []" by auto
    then have "fst (splitEventPart_transform partChunk) = [sseObject (parse_lines ?lines)]"
      by (simp add: splitEventPart_transform_def Let_def)
    with key show ?thesis by blast
  qed
  from 1 2 3 4 5 6 7 show ?thesis by blast
qed

text \<open>The block \<open>data:hi\<close>, \<open>notakeyvalue\<close>, \<open>id:1\<close> of the specification.\<close>

theorem malformed_line_skipped_witness:
  "String_split (js ''data:hi\<newline>notakeyvalue\<newline>id:1'') DEFAULT_PART_SEPARATOR =
     [js ''data:hi''] @ js ''notakeyvalue'' # [js ''id:1''] \<and>
   \<not> String_includes (js ''notakeyvalue'') DEFAULT_KV_SEPARATOR \<and>
   fst (splitEventPart_transform (js ''data:hi\<newline>notakeyvalue\<newline>id:1'')) =
     [[(js ''data'', js ''hi''), (js ''id'', js ''1'')]] \<and>
   warning_message (js ''notakeyvalue'') \<in>
     set (snd (splitEventPart_transform (js ''data:hi\<newline>notakeyvalue\<newline>id:1''))) \<and>
   js ''id'' \<in> set (Object_keys [(js ''data'', js ''hi''), (js ''id'', js ''1'')])"
proof -
  let ?block = "js ''data:hi\<newline>notakeyvalue\<newline>id:1''"
  let ?obj = "[(js ''data'', js ''hi''), (js ''id'', js ''1'')]"
  have sp: "String_split ?block DEFAULT_PART_SEPARATOR =
      [js ''data:hi''] @ js ''notakeyvalue'' # [js ''id:1'']"
    by (simp add: evaluate_split)
  have h: "\<not> String_includes (js ''notakeyvalue'') DEFAULT_KV_SEPARATOR"
    by (simp add: js_simps String_includes_single DEFAULT_KV_SEPARATOR_def)
  note inst = malformed_line_skipped [OF sp h, of "\<lparr>sseObject = [], warnings = []\<rparr>"]
  have e: "sseObject (parse_lines ([js ''data:hi''] @ [js ''id:1''])) = ?obj"
    by (simp add: evaluate_line)
  have k: "Object_keys ?obj = [js ''data'', js ''id'']"
    by (simp add: evaluate_keys)
  from inst have "fst (splitEventPart_transform ?block) =
      (if length (Object_keys (sseObject (parse_lines ([js ''data:hi''] @ [js ''id:1''])))) = 0
       then [] else [sseObject (parse_lines ([js ''data:hi''] @ [js ''id:1'']))])"
    by blast
  then have out: "fst (splitEventPart_transform ?block) = [?obj]"
    unfolding e k by simp
  from inst have warned: "warning_message (js ''notakeyvalue'') \<in>
      set (snd (splitEventPart_transform ?block))"
    by blast
  have l: "js ''id:1'' \<in> set [js ''id:1'']" by simp
  have inc: "String_includes (js ''id:1'') DEFAULT_KV_SEPARATOR"
    by (simp add: js_simps String_includes_single DEFAULT_KV_SEPARATOR_def)
  have key: "takeWhile (\<lambda>c. c \<noteq> 0x3A) (js ''id:1'') = js ''id''"
    by (simp add: js_simps)
  have valid: "isValidString (js ''id'')" by (simp add: evaluate_valid)
  have proto: "js ''id'' \<noteq> proto_key" by (simp add: js_simps proto_key_def)
  from inst have "\<forall>l \<in> set [js ''id:1''].
      String_includes l DEFAULT_KV_SEPARATOR \<and>
      isValidString (takeWhile (\<lambda>c. c \<noteq> 0x3A) l) \<and>
      takeWhile (\<lambda>c. c \<noteq> 0x3A) l \<noteq> proto_key \<longrightarrow>
      (\<exists>obj. fst (splitEventPart_transform ?block) = [obj] \<and>
         takeWhile (\<lambda>c. c \<noteq> 0x3A) l \<in> set (Object_keys obj))"
    by blast
  with l inc valid proto
  have "\<exists>obj. fst (splitEventPart_transform ?block) = [obj] \<and> js ''id'' \<in> set (Object_keys obj)"
    unfolding key [symmetric] by blast
  then have later: "js ''id'' \<in> set (Object_keys ?obj)"
    unfolding out by simp
  from sp h out warned later show ?thesis by blast
qed

section \<open>Falsy values\<close>





end
